theory Spec2Isabelle
  imports Main "HOL-Library.Char_ord" "HOL-Library.List_Lexorder" "HOL-Library.Multiset"
begin

section \<open>Data model of ProjectTwo.cpp\<close>

text \<open>
  A \<open>std::string\<close> is a sequence of bytes: \<^typ>\<open>string\<close>. The operators \<open>==\<close> and
  \<open><\<close> of \<open>std::string\<close> compare byte-wise, bytes read as unsigned, a proper prefix
  being smaller: that is the order of \<open>Char_ord\<close> lifted to lists by \<open>List_Lexorder\<close>.
\<close>

record Course =
  courseNumber :: string
  courseName :: string
  prerequisites :: "string list"

text \<open>
  \<open>Node*\<close>: either \<open>nullptr\<close> or a node owning its course and its two children. Every
  node is reached through exactly one pointer, so the tree is a value.
\<close>

datatype node_ptr = nullptr | Node Course node_ptr node_ptr

text \<open>\<open>std::cout\<close> is the text written so far; \<open>endl\<close> writes a newline.\<close>

type_synonym ostream = string

definition endl :: string where
  "endl = [CHR 0x0A]"

section \<open>CourseBST\<close>

text \<open>\<open>Course::printCourseBasic\<close>\<close>

definition printCourseBasic :: "Course \<Rightarrow> ostream \<Rightarrow> ostream" where
  "printCourseBasic c cout = cout @ courseNumber c @ '', '' @ courseName c @ endl"

text \<open>\<open>CourseBST::addNode\<close>: the reference parameter is returned updated.\<close>

fun addNode :: "node_ptr \<Rightarrow> Course \<Rightarrow> node_ptr" where
  "addNode nullptr course = Node course nullptr nullptr"
| "addNode (Node c l r) course =
     (if courseNumber course < courseNumber c then Node c (addNode l course) r
      else Node c l (addNode r course))"

text \<open>\<open>CourseBST::inOrder\<close>, writing to \<open>cout\<close>.\<close>

fun inOrder :: "node_ptr \<Rightarrow> ostream \<Rightarrow> ostream" where
  "inOrder nullptr cout = cout"
| "inOrder (Node c l r) cout = inOrder r (printCourseBasic c (inOrder l cout))"

text \<open>
  The sequence of courses that \<open>inOrder\<close> visits (the receivers of its
  \<open>printCourseBasic\<close> calls, in call order): the enumeration of the catalog.
\<close>

fun enumerate_courses :: "node_ptr \<Rightarrow> Course list" where
  "enumerate_courses nullptr = []"
| "enumerate_courses (Node c l r) = enumerate_courses l @ c # enumerate_courses r"

text \<open>\<open>CourseBST::searchNode\<close>: \<open>None\<close> is the null result.\<close>

fun searchNode :: "node_ptr \<Rightarrow> string \<Rightarrow> Course option" where
  "searchNode nullptr k = None"
| "searchNode (Node c l r) k =
     (if courseNumber c = k then Some c
      else if k < courseNumber c then searchNode l k
      else searchNode r k)"

text \<open>The class itself: its only member is \<open>root\<close>.\<close>

type_synonym CourseBST = node_ptr

definition CourseBST_new :: CourseBST where
  "CourseBST_new = nullptr"

definition insert_course :: "CourseBST \<Rightarrow> Course \<Rightarrow> CourseBST" where
  "insert_course root course = addNode root course"

definition printAll :: "CourseBST \<Rightarrow> ostream \<Rightarrow> ostream" where
  "printAll root cout = inOrder root cout"

definition search :: "CourseBST \<Rightarrow> string \<Rightarrow> Course option" where
  "search root k = searchNode root k"

text \<open>
  The root is private, so the catalogs a program can hold are those built from the
  empty one by calls of \<open>insert\<close>.
\<close>

definition catalog_of :: "Course list \<Rightarrow> CourseBST" where
  "catalog_of cs = foldl insert_course CourseBST_new cs"

text \<open>
  The search-tree order of the nodes: everything on the left is smaller than the node,
  everything on the right is at least the node (equal ids are filed on the right).
\<close>

fun bst_ordered :: "node_ptr \<Rightarrow> bool" where
  "bst_ordered nullptr = True"
| "bst_ordered (Node c l r) =
     (bst_ordered l \<and> bst_ordered r \<and>
      (\<forall>x \<in> set (enumerate_courses l). courseNumber x < courseNumber c) \<and>
      (\<forall>x \<in> set (enumerate_courses r). courseNumber c \<le> courseNumber x))"


section \<open>Utility: toUpperTrim\<close>

text \<open>The character set \<open>" \t\r\n"\<close> passed to the two find calls.\<close>

definition whitespace :: string where
  "whitespace = [CHR '' '', CHR 0x09, CHR 0x0D, CHR 0x0A]"

text \<open>
  \<open>std::string::find_first_not_of\<close> and \<open>find_last_not_of\<close>: the position of the
  first (last) character that is none of \<open>chars\<close>; \<open>None\<close> is \<open>string::npos\<close>.
\<close>

definition find_first_not_of :: "string \<Rightarrow> string \<Rightarrow> nat option" where
  "find_first_not_of str chars =
     (let i = length (takeWhile (\<lambda>c. c \<in> set chars) str)
      in if i < length str then Some i else None)"

definition find_last_not_of :: "string \<Rightarrow> string \<Rightarrow> nat option" where
  "find_last_not_of str chars =
     (let j = length (takeWhile (\<lambda>c. c \<in> set chars) (rev str))
      in if j < length str then Some (length str - 1 - j) else None)"

text \<open>
  \<open>std::string::substr(pos, n)\<close> for \<open>pos \<le> size()\<close>, which is how
  \<open>toUpperTrim\<close> calls it (lemma \<open>find_first_not_of_less\<close> below); it throws otherwise.
\<close>

definition substr :: "string \<Rightarrow> nat \<Rightarrow> nat \<Rightarrow> string" where
  "substr str pos n = take n (drop pos str)"

text \<open>
  \<open>toupper\<close> of \<open><cctype>\<close> in the "C" locale, the one in force since the program never
  calls \<open>setlocale\<close>: an \<open>int\<close> to an \<open>int\<close>.
\<close>

definition toupper :: "int \<Rightarrow> int" where
  "toupper c = (if 97 \<le> c \<and> c \<le> 122 then c - 32 else c)"

text \<open>
  The subtraction \<open>end - start + 1\<close> is on \<open>size_t\<close>; it does not wrap since
  \<open>start \<le> end\<close> when both are found (lemma \<open>find_first_le_find_last\<close> below).
\<close>

definition toUpperTrim :: "string \<Rightarrow> string" where
  "toUpperTrim str =
     (let start = find_first_not_of str whitespace;
          endp = find_last_not_of str whitespace;
          trimmed = (case (start, endp) of
                       (Some s, Some e) \<Rightarrow> substr str s (e - s + 1)
                     | _ \<Rightarrow> [])
      in map (\<lambda>c. char_of (toupper (of_char c))) trimmed)"

section \<open>loadCourses\<close>

text \<open>
  \<open>std::getline(stream, s, delim)\<close> on a stream whose unread content is \<open>is\<close>: it
  fails (\<open>None\<close>) when nothing is left to read; otherwise it yields the characters
  before the first \<open>delim\<close> (all of them when there is none) and leaves what follows
  that \<open>delim\<close> unread.
\<close>

definition getline :: "char \<Rightarrow> string \<Rightarrow> (string \<times> string) option" where
  "getline delim is =
     (if is = [] then None
      else Some (takeWhile (\<lambda>c. c \<noteq> delim) is, drop 1 (dropWhile (\<lambda>c. c \<noteq> delim) is)))"

text \<open>\<open>while (getline(ss, token, ',')) tokens.push_back(token);\<close>\<close>

function tokenize :: "string \<Rightarrow> string list \<Rightarrow> string list" where
  "tokenize ss tokens =
     (case getline CHR '','' ss of
        None \<Rightarrow> tokens
      | Some (token, ss') \<Rightarrow> tokenize ss' (tokens @ [token]))"
  by pat_completeness auto
termination
proof (relation "measure (\<lambda>(ss, tokens). length ss)")
  show "wf (measure (\<lambda>(ss, tokens). length ss))" by simp
next
  fix ss :: string and tokens :: "string list" and x2 token ss'
  assume "getline CHR '','' ss = Some x2" and "(token, ss') = x2"
  then have "ss \<noteq> []" and "ss' = drop 1 (dropWhile (\<lambda>c. c \<noteq> CHR '','') ss)"
    by (auto simp: getline_def split: if_splits)
  moreover have "length (dropWhile (\<lambda>c. c \<noteq> CHR '','') ss) \<le> length ss"
    by (rule length_dropWhile_le)
  ultimately have "length ss' < length ss"
    by (cases ss) auto
  then show "((ss', tokens @ [token]), (ss, tokens)) \<in> measure (\<lambda>(ss, tokens). length ss)"
    by simp
qed

text \<open>
  \<open>for (size_t i = 2; i < tokens.size(); ++i)
     course.prerequisites.push_back(toUpperTrim(tokens[i]));\<close>
\<close>

function prereq_loop :: "string list \<Rightarrow> nat \<Rightarrow> string list \<Rightarrow> string list" where
  "prereq_loop tokens i prereqs =
     (if i < length tokens
      then prereq_loop tokens (Suc i) (prereqs @ [toUpperTrim (tokens ! i)])
      else prereqs)"
  by pat_completeness auto
termination
  by (relation "measure (\<lambda>(tokens, i, prereqs). length tokens - i)") auto

text \<open>
  The body of the \<open>while (getline(file, line))\<close> loop for one line; both \<open>continue\<close>
  statements end it early. \<open>tokens[0]\<close> and \<open>tokens[1]\<close> are read only where
  \<open>tokens.size() \<ge> 2\<close>.
\<close>

definition loadCourses_body :: "string \<Rightarrow> CourseBST \<times> ostream \<Rightarrow> CourseBST \<times> ostream" where
  "loadCourses_body line st =
     (case st of (bst, cout) \<Rightarrow>
        if line = [] then (bst, cout)
        else
          let tokens = tokenize line []
          in if length tokens < 2
             then (bst, cout @ ''WARNING: Invalid course line (skipped): '' @ line @ endl)
             else
               let course = \<lparr>courseNumber = toUpperTrim (tokens ! 0),
                             courseName = tokens ! 1,
                             prerequisites = prereq_loop tokens 2 []\<rparr>
               in (insert_course bst course, cout))"

function loadCourses_loop :: "string \<Rightarrow> CourseBST \<times> ostream \<Rightarrow> CourseBST \<times> ostream" where
  "loadCourses_loop file st =
     (case getline CHR 0x0A file of
        None \<Rightarrow> st
      | Some (line, file') \<Rightarrow> loadCourses_loop file' (loadCourses_body line st))"
  by pat_completeness auto
termination
proof (relation "measure (\<lambda>(file, st). length file)")
  show "wf (measure (\<lambda>(file, st). length file))" by simp
next
  fix src :: string and st :: "CourseBST \<times> ostream" and x2 line src'
  assume "getline CHR 0x0A src = Some x2" and "(line, src') = x2"
  then have "src \<noteq> []" and "src' = drop 1 (dropWhile (\<lambda>c. c \<noteq> CHR 0x0A) src)"
    by (auto simp: getline_def split: if_splits)
  moreover have "length (dropWhile (\<lambda>c. c \<noteq> CHR 0x0A) src) \<le> length src"
    by (rule length_dropWhile_le)
  ultimately have "length src' < length src"
    by (cases src) auto
  then show "((src', loadCourses_body line st), (src, st)) \<in> measure (\<lambda>(file, st). length file)"
    by simp
qed

text \<open>
  The lines that the successive \<open>getline(file, line)\<close> calls of that loop yield.
\<close>

function read_lines :: "string \<Rightarrow> string list" where
  "read_lines file =
     (case getline CHR 0x0A file of
        None \<Rightarrow> []
      | Some (line, file') \<Rightarrow> line # read_lines file')"
  by pat_completeness auto
termination
proof (relation "measure length")
  show "wf (measure length)" by simp
next
  fix src :: string and x2 line src'
  assume "getline CHR 0x0A src = Some x2" and "(line, src') = x2"
  then have "src \<noteq> []" and "src' = drop 1 (dropWhile (\<lambda>c. c \<noteq> CHR 0x0A) src)"
    by (auto simp: getline_def split: if_splits)
  moreover have "length (dropWhile (\<lambda>c. c \<noteq> CHR 0x0A) src) \<le> length src"
    by (rule length_dropWhile_le)
  ultimately have "length src' < length src"
    by (cases src) auto
  then show "(src', src) \<in> measure length"
    by simp
qed

text \<open>
  The files that \<open>ifstream\<close> can open, with their contents: \<open>fs filename = None\<close> is
  \<open>!file.is_open()\<close>.
\<close>

type_synonym filesystem = "string \<rightharpoonup> string"

definition loadCourses ::
  "filesystem \<Rightarrow> string \<Rightarrow> CourseBST \<times> ostream \<Rightarrow> CourseBST \<times> ostream" where
  "loadCourses fs filename st =
     (case st of (bst, cout) \<Rightarrow>
        (case fs filename of
           None \<Rightarrow> (bst, cout @ ''ERROR: Could not open file: '' @ filename @ endl)
         | Some file \<Rightarrow>
             (case loadCourses_loop file
                     (bst, cout @ ''Loading courses from '' @ filename @ ''...'' @ endl) of
                (bst', cout') \<Rightarrow>
                  (bst', cout' @ ''Courses loaded into data structure.'' @ endl))))"

section \<open>printCourseInfo\<close>

text \<open>
  The \<open>for (const auto& prereqID : course->prerequisites)\<close> loop, with its flag
  \<open>firstPrinted\<close>.
\<close>

fun print_prereqs :: "CourseBST \<Rightarrow> string list \<Rightarrow> bool \<Rightarrow> ostream \<Rightarrow> ostream" where
  "print_prereqs bst [] firstPrinted cout = cout"
| "print_prereqs bst (prereqID # rest) firstPrinted cout =
     (let cout1 = (if firstPrinted then cout @ '', '' else cout);
          cout2 = (case search bst prereqID of
                     Some prereqCourse \<Rightarrow>
                       cout1 @ courseNumber prereqCourse @ '': '' @ courseName prereqCourse
                   | None \<Rightarrow> cout1 @ prereqID @ '': None Required'')
      in print_prereqs bst rest True cout2)"

text \<open>\<open>userInput\<close> is the line that \<open>getline(cin, userInput)\<close> reads.\<close>

definition printCourseInfo :: "CourseBST \<Rightarrow> string \<Rightarrow> ostream \<Rightarrow> ostream" where
  "printCourseInfo bst userInput cout =
     (let cout0 = cout @ ''What course do you want to know about? '';
          courseKey = toUpperTrim userInput
      in case search bst courseKey of
           None \<Rightarrow> cout0 @ ''Course not found.'' @ endl
         | Some course \<Rightarrow>
             (let cout1 = cout0 @ courseNumber course @ '', '' @ courseName course @ endl
              in if prerequisites course \<noteq> []
                 then print_prereqs bst (prerequisites course) False
                        (cout1 @ ''Prerequisites: '') @ endl
                 else cout1 @ ''Prerequisites: None'' @ endl))"

section \<open>The specification's wording, for comparison with the code\<close>

text \<open>
  Normalization as the specification words it: strip the leading and the trailing
  characters in \{space, tab, carriage return, newline\}, then map the bytes
  0x61..0x7A to 0x41..0x5A and leave every other byte.
\<close>

definition is_space_spec :: "char \<Rightarrow> bool" where
  "is_space_spec c = (c = CHR '' '' \<or> c = CHR 0x09 \<or> c = CHR 0x0D \<or> c = CHR 0x0A)"

definition strip_spec :: "string \<Rightarrow> string" where
  "strip_spec s = rev (dropWhile is_space_spec (rev (dropWhile is_space_spec s)))"

definition upper_spec :: "char \<Rightarrow> char" where
  "upper_spec c =
     (if (0x61::nat) \<le> of_char c \<and> of_char c \<le> (0x7A::nat)
      then char_of (of_char c - (0x61::nat) + 0x41) else c)"

definition normalize_spec :: "string \<Rightarrow> string" where
  "normalize_spec s = map upper_spec (strip_spec s)"

definition is_lower_spec :: "char \<Rightarrow> bool" where
  "is_lower_spec c = ((0x61::nat) \<le> of_char c \<and> of_char c \<le> (0x7A::nat))"

text \<open>
  A normalized identifier as the specification words it: uppercase (no byte in
  0x61..0x7A) and no leading or trailing whitespace.
\<close>

definition is_normalized_spec :: "string \<Rightarrow> bool" where
  "is_normalized_spec s =
     ((\<forall>c \<in> set s. \<not> is_lower_spec c) \<and>
      (s \<noteq> [] \<longrightarrow> \<not> is_space_spec (hd s) \<and> \<not> is_space_spec (last s)))"

text \<open>
  Splitting a text on a one-byte delimiter, as the specification words it: the pieces
  between the delimiters, so that a text with \<open>n\<close> delimiters has \<open>n + 1\<close> pieces
  (some of them possibly empty).
\<close>

fun split_spec :: "char \<Rightarrow> string \<Rightarrow> string list" where
  "split_spec d [] = [[]]"
| "split_spec d (c # cs) =
     (if c = d then [] # split_spec d cs
      else (case split_spec d cs of
              [] \<Rightarrow> [[c]]
            | p # ps \<Rightarrow> (c # p) # ps))"

text \<open>
  The fields of a line: its pieces between the commas, where an empty piece after the
  last comma is not a field (the line \<open>X,\<close> has the one field \<open>X\<close>, and the empty
  line has no field).
\<close>

definition fields_spec :: "string \<Rightarrow> string list" where
  "fields_spec line =
     (if last (split_spec CHR '','' line) = [] then butlast (split_spec CHR '','' line)
      else split_spec CHR '','' line)"

text \<open>
  The loader's contract as the specification words it: a line is well-formed when it
  is not blank and has at least two fields, malformed when it is not blank and has
  fewer; a well-formed line gives the course with id the normalized field 0, title
  field 1 verbatim, prerequisites the fields from 2 on, each normalized, in order.
\<close>

definition well_formed_spec :: "string \<Rightarrow> bool" where
  "well_formed_spec line = (line \<noteq> [] \<and> 2 \<le> length (fields_spec line))"

definition malformed_spec :: "string \<Rightarrow> bool" where
  "malformed_spec line = (line \<noteq> [] \<and> length (fields_spec line) < 2)"

definition course_of_line_spec :: "string \<Rightarrow> Course" where
  "course_of_line_spec line =
     \<lparr>courseNumber = normalize_spec (fields_spec line ! 0),
      courseName = fields_spec line ! 1,
      prerequisites = map normalize_spec (drop 2 (fields_spec line))\<rparr>"

definition warning_spec :: "string \<Rightarrow> string" where
  "warning_spec line = ''WARNING: Invalid course line (skipped): '' @ line @ endl"

text \<open>
  Detail rendering as the specification words it: the entries of the prerequisite
  list joined by comma and space.
\<close>

definition render_prereq_spec :: "CourseBST \<Rightarrow> string \<Rightarrow> string" where
  "render_prereq_spec bst p =
     (case search bst p of
        Some c \<Rightarrow> courseNumber c @ '': '' @ courseName c
      | None \<Rightarrow> p @ '': None Required'')"

fun join_comma_space :: "string list \<Rightarrow> string" where
  "join_comma_space [] = []"
| "join_comma_space [x] = x"
| "join_comma_space (x # y # ys) = x @ '', '' @ join_comma_space (y # ys)"

definition render_detail_spec :: "CourseBST \<Rightarrow> string \<Rightarrow> string" where
  "render_detail_spec bst query =
     (case search bst (normalize_spec query) of
        None \<Rightarrow> ''Course not found.'' @ endl
      | Some c \<Rightarrow>
          courseNumber c @ '', '' @ courseName c @ endl @
          (if prerequisites c = [] then ''Prerequisites: None''
           else ''Prerequisites: '' @
                join_comma_space (map (render_prereq_spec bst) (prerequisites c))) @
          endl)"

text \<open>
  The equations of the loops are unfolded one step at a time, where a proof asks for it.
\<close>

declare tokenize.simps [simp del]
declare prereq_loop.simps [simp del]
declare loadCourses_loop.simps [simp del]
declare read_lines.simps [simp del]

section \<open>Properties of the tree\<close>

lemma inOrder_enumerate:
  "inOrder t cout = foldl (\<lambda>out c. printCourseBasic c out) cout (enumerate_courses t)"
  by (induction t arbitrary: cout) simp_all

lemma searchNode_addNode:
  "searchNode (addNode t c) k =
     (case searchNode t k of
        Some x \<Rightarrow> Some x
      | None \<Rightarrow> if courseNumber c = k then Some c else None)"
  by (induction t) (auto split: option.splits)

lemma searchNode_foldl_addNode:
  "searchNode (foldl addNode t cs) k =
     (case searchNode t k of
        Some x \<Rightarrow> Some x
      | None \<Rightarrow> find (\<lambda>c. courseNumber c = k) cs)"
proof (induction cs arbitrary: t)
  case Nil
  show ?case by (simp split: option.splits)
next
  case (Cons c cs)
  show ?case
    by (simp add: Cons.IH searchNode_addNode split: option.splits)
qed

lemma foldl_insert_course:
  "foldl insert_course t cs = foldl addNode t cs"
  by (induction cs arbitrary: t) (simp_all add: insert_course_def)

lemma search_catalog_of:
  "search (catalog_of cs) k = find (\<lambda>c. courseNumber c = k) cs"
  by (simp add: search_def catalog_of_def CourseBST_new_def foldl_insert_course
      searchNode_foldl_addNode)

lemma set_enumerate_addNode:
  "set (enumerate_courses (addNode t c)) = insert c (set (enumerate_courses t))"
  by (induction t) auto

lemma mset_enumerate_addNode:
  "mset (enumerate_courses (addNode t c)) = add_mset c (mset (enumerate_courses t))"
  by (induction t) auto

lemma bst_ordered_addNode:
  "bst_ordered t \<Longrightarrow> bst_ordered (addNode t c)"
  by (induction t) (auto simp: set_enumerate_addNode)

lemma sorted_enumerate:
  "bst_ordered t \<Longrightarrow> sorted (map courseNumber (enumerate_courses t))"
proof (induction t)
  case nullptr
  show ?case by simp
next
  case (Node c l r)
  have "courseNumber x \<le> courseNumber y"
    if "x \<in> set (enumerate_courses l)" and "y \<in> set (enumerate_courses r)" for x y
  proof -
    have "courseNumber x < courseNumber c" using Node.prems that(1) by simp
    moreover have "courseNumber c \<le> courseNumber y" using Node.prems that(2) by simp
    ultimately show ?thesis by simp
  qed
  with Node show ?case
    by (auto simp: sorted_append intro: less_imp_le)
qed

lemma filter_enumerate_addNode:
  "bst_ordered t \<Longrightarrow>
   filter (\<lambda>x. courseNumber x = k) (enumerate_courses (addNode t c)) =
   filter (\<lambda>x. courseNumber x = k) (enumerate_courses t) @
     (if courseNumber c = k then [c] else [])"
proof (induction t)
  case nullptr
  show ?case by simp
next
  case (Node n l r)
  show ?case
  proof (cases "courseNumber c < courseNumber n")
    case True
    have "filter (\<lambda>x. courseNumber x = courseNumber c) (enumerate_courses r) = []"
      using Node.prems True by (auto simp: filter_empty_conv)
    with Node True show ?thesis by auto
  next
    case False
    with Node show ?thesis by auto
  qed
qed

lemma bst_ordered_foldl:
  "bst_ordered t \<Longrightarrow> bst_ordered (foldl addNode t cs)"
  by (induction cs arbitrary: t) (simp_all add: bst_ordered_addNode)

lemma mset_enumerate_foldl:
  "mset (enumerate_courses (foldl addNode t cs)) = mset (enumerate_courses t) + mset cs"
  by (induction cs arbitrary: t) (simp_all add: mset_enumerate_addNode)

lemma filter_enumerate_foldl:
  "bst_ordered t \<Longrightarrow>
   filter (\<lambda>x. courseNumber x = k) (enumerate_courses (foldl addNode t cs)) =
   filter (\<lambda>x. courseNumber x = k) (enumerate_courses t) @
   filter (\<lambda>x. courseNumber x = k) cs"
  by (induction cs arbitrary: t)
    (simp_all add: bst_ordered_addNode filter_enumerate_addNode)

lemma catalog_of_foldl:
  "catalog_of cs = foldl addNode nullptr cs"
  by (simp add: catalog_of_def CourseBST_new_def foldl_insert_course)

lemma bst_ordered_catalog_of:
  "bst_ordered (catalog_of cs)"
  by (simp add: catalog_of_foldl bst_ordered_foldl)

lemma mset_enumerate_catalog_of:
  "mset (enumerate_courses (catalog_of cs)) = mset cs"
  by (simp add: catalog_of_foldl mset_enumerate_foldl)

lemma set_enumerate_catalog_of:
  "set (enumerate_courses (catalog_of cs)) = set cs"
  using mset_enumerate_catalog_of [of cs] by (metis set_mset_mset)

lemma sorted_enumerate_catalog_of:
  "sorted (map courseNumber (enumerate_courses (catalog_of cs)))"
  by (simp add: sorted_enumerate bst_ordered_catalog_of)

lemma filter_enumerate_catalog_of:
  "filter (\<lambda>x. courseNumber x = k) (enumerate_courses (catalog_of cs)) =
   filter (\<lambda>x. courseNumber x = k) cs"
  by (simp add: catalog_of_foldl filter_enumerate_foldl)

lemma distinct_ids_enumerate_catalog_of:
  "distinct (map courseNumber cs) \<Longrightarrow>
   distinct (map courseNumber (enumerate_courses (catalog_of cs)))"
proof -
  assume d: "distinct (map courseNumber cs)"
  have "mset (map courseNumber (enumerate_courses (catalog_of cs))) =
        mset (map courseNumber cs)"
    by (simp add: mset_enumerate_catalog_of)
  then show ?thesis
    using d by (metis mset_eq_imp_distinct_iff)
qed

lemma searchNode_key:
  "searchNode t k = Some c \<Longrightarrow> courseNumber c = k \<and> c \<in> set (enumerate_courses t)"
  by (induction t) (auto split: if_splits)

section \<open>Properties of toUpperTrim\<close>

lemma in_whitespace: "c \<in> set whitespace \<longleftrightarrow> is_space_spec c"
  by (auto simp: whitespace_def is_space_spec_def)

lemma length_takeWhile_eq:
  "length (takeWhile P xs) = length xs \<longleftrightarrow> (\<forall>x \<in> set xs. P x)"
  by (induction xs) auto

lemma rev_dropWhile_rev:
  "rev (dropWhile P (rev u)) = take (length u - length (takeWhile P (rev u))) u"
  by (simp add: dropWhile_eq_drop drop_rev)

lemma find_first_not_of_None:
  "find_first_not_of str chars = None \<longleftrightarrow> set str \<subseteq> set chars"
proof -
  have "length (takeWhile (\<lambda>c. c \<in> set chars) str) \<le> length str"
    by (rule length_takeWhile_le)
  then show ?thesis
    using length_takeWhile_eq [of "\<lambda>c. c \<in> set chars" str]
    by (auto simp: find_first_not_of_def Let_def)
qed

lemma find_last_not_of_None:
  "find_last_not_of str chars = None \<longleftrightarrow> set str \<subseteq> set chars"
proof -
  have "length (takeWhile (\<lambda>c. c \<in> set chars) (rev str)) \<le> length (rev str)"
    by (rule length_takeWhile_le)
  then show ?thesis
    using length_takeWhile_eq [of "\<lambda>c. c \<in> set chars" "rev str"]
    by (auto simp: find_last_not_of_def Let_def)
qed

lemma find_first_not_of_less:
  "find_first_not_of str chars = Some i \<Longrightarrow> i < length str"
  by (auto simp: find_first_not_of_def Let_def split: if_splits)

lemma takeWhile_rev_drop:
  assumes "a = length (takeWhile P s)" and "a < length s"
  shows "takeWhile P (rev s) = takeWhile P (rev (drop a s))"
    and "length (takeWhile P (rev s)) < length s - a"
proof -
  have "\<not> P (s ! a)"
    using assms nth_length_takeWhile by blast
  moreover have "s ! a \<in> set (rev (drop a s))"
    using assms(2) by (metis set_rev hd_drop_conv_nth hd_in_set drop_eq_Nil not_le)
  moreover have "rev s = rev (drop a s) @ rev (take a s)"
    by (metis append_take_drop_id rev_append)
  ultimately show eq: "takeWhile P (rev s) = takeWhile P (rev (drop a s))"
    by (metis takeWhile_append1)
  have "\<exists>x \<in> set (rev (drop a s)). \<not> P x"
    using \<open>\<not> P (s ! a)\<close> \<open>s ! a \<in> set (rev (drop a s))\<close> by blast
  then have "length (takeWhile P (rev (drop a s))) \<noteq> length (rev (drop a s))"
    by (simp only: length_takeWhile_eq) blast
  moreover have "length (takeWhile P (rev (drop a s))) \<le> length (rev (drop a s))"
    by (rule length_takeWhile_le)
  ultimately have "length (takeWhile P (rev (drop a s))) < length (rev (drop a s))"
    by simp
  then show "length (takeWhile P (rev s)) < length s - a"
    by (simp add: eq)
qed

lemma find_first_le_find_last:
  assumes "find_first_not_of str chars = Some i" and "find_last_not_of str chars = Some j"
  shows "i \<le> j"
proof -
  let ?P = "\<lambda>c. c \<in> set chars"
  have i: "i = length (takeWhile ?P str)" "i < length str"
    using assms(1) by (auto simp: find_first_not_of_def Let_def split: if_splits)
  have j: "j = length str - 1 - length (takeWhile ?P (rev str))"
    using assms(2) by (auto simp: find_last_not_of_def Let_def split: if_splits)
  have "length (takeWhile ?P (rev str)) < length str - i"
    using takeWhile_rev_drop(2) [OF i] .
  with j show ?thesis by simp
qed

lemma trimmed_eq_strip_spec:
  "(case (find_first_not_of s whitespace, find_last_not_of s whitespace) of
      (Some a, Some e) \<Rightarrow> substr s a (e - a + 1)
    | _ \<Rightarrow> []) = strip_spec s"
proof (cases "set s \<subseteq> set whitespace")
  case True
  then have "find_first_not_of s whitespace = None"
    by (simp add: find_first_not_of_None)
  moreover have "dropWhile is_space_spec s = []"
    using True by (auto simp: in_whitespace)
  then have "strip_spec s = []"
    by (simp only: strip_spec_def rev.simps dropWhile.simps)
  ultimately show ?thesis
    by simp
next
  case False
  let ?P = "\<lambda>c. c \<in> set whitespace"
  have P: "?P = is_space_spec"
    by (rule ext) (rule in_whitespace)
  define a where "a = length (takeWhile ?P s)"
  define b where "b = length (takeWhile ?P (rev s))"
  have "find_first_not_of s whitespace \<noteq> None"
    using False by (simp add: find_first_not_of_None)
  then have a: "find_first_not_of s whitespace = Some a" "a < length s"
    by (auto simp: find_first_not_of_def Let_def a_def split: if_splits)
  have tw: "takeWhile ?P (rev s) = takeWhile ?P (rev (drop a s))"
    and b: "b < length s - a"
    using takeWhile_rev_drop [OF a_def a(2)] by (simp_all add: b_def)
  have e: "find_last_not_of s whitespace = Some (length s - 1 - b)"
    using b by (simp add: find_last_not_of_def Let_def b_def)
  have "strip_spec s = rev (dropWhile ?P (rev (dropWhile ?P s)))"
    by (simp add: strip_spec_def P)
  also have "dropWhile ?P s = drop a s"
    by (simp add: dropWhile_eq_drop a_def)
  also have "rev (dropWhile ?P (rev (drop a s))) = take (length s - a - b) (drop a s)"
    by (simp add: rev_dropWhile_rev flip: tw b_def)
  finally have "strip_spec s = take (length s - a - b) (drop a s)" .
  moreover have "length s - 1 - b - a + 1 = length s - a - b"
    using b by simp
  ultimately show ?thesis
    by (simp add: a(1) e substr_def)
qed

lemma toupper_char: "char_of (toupper (of_char c)) = upper_spec c"
proof -
  let ?n = "of_char c :: nat"
  have i: "(of_char c :: int) = int ?n"
    by (simp add: of_nat_of_char)
  show ?thesis
  proof (cases "97 \<le> ?n \<and> ?n \<le> 122")
    case True
    then have "int ?n - 32 = int (?n - 97 + 65)" by simp
    then have "char_of (int ?n - 32) = char_of (?n - 97 + 65)"
      by (simp only: char_of_nat)
    with True show ?thesis
      by (simp add: toupper_def upper_spec_def i)
  next
    case False
    then have "toupper (of_char c) = (of_char c :: int)"
      unfolding toupper_def i by auto
    moreover have "upper_spec c = c"
      using False by (auto simp: upper_spec_def)
    ultimately show ?thesis by simp
  qed
qed

lemma toUpperTrim_eq_normalize_spec: "toUpperTrim s = normalize_spec s"
  unfolding toUpperTrim_def Let_def normalize_spec_def
  by (simp only: trimmed_eq_strip_spec toupper_char)

lemma toUpperTrim_whitespace_only:
  "set s \<subseteq> set whitespace \<Longrightarrow> toUpperTrim s = []"
proof -
  assume "set s \<subseteq> set whitespace"
  then have "find_first_not_of s whitespace = None"
    by (simp only: find_first_not_of_None)
  then show ?thesis
    by (simp add: toUpperTrim_def)
qed

lemma upper_spec_not_lower: "\<not> is_lower_spec (upper_spec c)"
proof (cases "is_lower_spec c")
  case True
  define n where "n = (of_char c :: nat)"
  have n: "97 \<le> n" "n \<le> 122"
    using True by (simp_all add: is_lower_spec_def n_def)
  then have "(of_char (char_of (n - 97 + 65)) :: nat) = n - 32"
    by simp
  with n show ?thesis
    by (simp add: upper_spec_def is_lower_spec_def flip: n_def)
next
  case False
  then show ?thesis
    by (auto simp: upper_spec_def is_lower_spec_def)
qed

lemma upper_spec_space: "is_space_spec (upper_spec c) \<longleftrightarrow> is_space_spec c"
proof (cases "is_lower_spec c")
  case True
  define n where "n = (of_char c :: nat)"
  have n: "97 \<le> n" "n \<le> 122"
    using True by (simp_all add: is_lower_spec_def n_def)
  then have u: "(of_char (upper_spec c) :: nat) = n - 32"
    by (simp add: upper_spec_def flip: n_def)
  have "is_space_spec d \<Longrightarrow> (of_char d :: nat) \<le> 32" for d
    by (auto simp: is_space_spec_def)
  then have "\<not> is_space_spec (upper_spec c)" "\<not> is_space_spec c"
    using u n by (fastforce simp: n_def)+
  then show ?thesis by simp
next
  case False
  then show ?thesis
    by (auto simp: upper_spec_def is_lower_spec_def)
qed

lemma upper_spec_id: "\<not> is_lower_spec c \<Longrightarrow> upper_spec c = c"
  by (auto simp: upper_spec_def is_lower_spec_def)

lemma strip_spec_ends:
  assumes "strip_spec s \<noteq> []"
  shows "\<not> is_space_spec (hd (strip_spec s))" and "\<not> is_space_spec (last (strip_spec s))"
proof -
  let ?u = "dropWhile is_space_spec s"
  let ?v = "dropWhile is_space_spec (rev ?u)"
  have v: "?v \<noteq> []" using assms by (simp add: strip_spec_def)
  then have "\<not> is_space_spec (hd ?v)" by (rule hd_dropWhile)
  then show "\<not> is_space_spec (last (strip_spec s))"
    using v by (simp add: strip_spec_def last_rev)
  have u: "?u \<noteq> []"
  proof
    assume "?u = []"
    then have "?v = []" by (simp only: rev.simps dropWhile.simps)
    with v show False by simp
  qed
  then have hu: "\<not> is_space_spec (hd ?u)" by (rule hd_dropWhile)
  have "strip_spec s = take (length ?u - length (takeWhile is_space_spec (rev ?u))) ?u"
    by (simp add: strip_spec_def rev_dropWhile_rev)
  then have "hd (strip_spec s) = hd ?u"
    using assms by (metis hd_take take_eq_Nil gr0I)
  with hu show "\<not> is_space_spec (hd (strip_spec s))" by simp
qed

lemma strip_spec_id:
  assumes "s \<noteq> [] \<longrightarrow> \<not> is_space_spec (hd s) \<and> \<not> is_space_spec (last s)"
  shows "strip_spec s = s"
proof (cases s)
  case Nil
  then show ?thesis by (simp add: strip_spec_def)
next
  case (Cons x xs)
  with assms have h: "\<not> is_space_spec (hd s)" and l: "\<not> is_space_spec (last s)" by simp_all
  have "dropWhile is_space_spec s = s"
    using h Cons by simp
  moreover have "dropWhile is_space_spec (rev s) = rev s"
    using l Cons by (metis dropWhile_eq_self_iff hd_rev)
  ultimately show ?thesis by (simp add: strip_spec_def)
qed

lemma is_normalized_normalize_spec: "is_normalized_spec (normalize_spec s)"
proof -
  have "\<forall>c \<in> set (normalize_spec s). \<not> is_lower_spec c"
    by (auto simp: normalize_spec_def upper_spec_not_lower)
  moreover have "\<not> is_space_spec (hd (normalize_spec s)) \<and>
                 \<not> is_space_spec (last (normalize_spec s))"
    if "normalize_spec s \<noteq> []"
  proof -
    from that have ne: "strip_spec s \<noteq> []" by (simp add: normalize_spec_def)
    then show ?thesis
      using strip_spec_ends [OF ne]
      by (simp add: normalize_spec_def hd_map last_map upper_spec_space)
  qed
  ultimately show ?thesis by (simp add: is_normalized_spec_def)
qed

lemma normalize_spec_id: "is_normalized_spec s \<Longrightarrow> normalize_spec s = s"
proof -
  assume n: "is_normalized_spec s"
  then have "strip_spec s = s"
    by (intro strip_spec_id) (simp add: is_normalized_spec_def)
  moreover have "map upper_spec s = s"
    using n by (simp add: is_normalized_spec_def upper_spec_id map_idI)
  ultimately show ?thesis by (simp add: normalize_spec_def)
qed

lemma toUpperTrim_fixed_point_iff: "toUpperTrim s = s \<longleftrightarrow> is_normalized_spec s"
  by (metis toUpperTrim_eq_normalize_spec is_normalized_normalize_spec normalize_spec_id)

lemma is_normalized_toUpperTrim: "is_normalized_spec (toUpperTrim s)"
  by (simp add: toUpperTrim_eq_normalize_spec is_normalized_normalize_spec)

lemma toUpperTrim_idem: "toUpperTrim (toUpperTrim s) = toUpperTrim s"
  by (simp add: toUpperTrim_fixed_point_iff is_normalized_toUpperTrim)

section \<open>Properties of loadCourses\<close>

lemma getline_Nil: "getline d [] = None"
  by (simp add: getline_def)

lemma getline_no_delim:
  assumes "s \<noteq> []" and "d \<notin> set s"
  shows "getline d s = Some (s, [])"
proof -
  have "\<forall>c \<in> set s. c \<noteq> d" using assms(2) by blast
  then have "takeWhile (\<lambda>c. c \<noteq> d) s = s" and "dropWhile (\<lambda>c. c \<noteq> d) s = []"
    by simp_all
  with assms(1) show ?thesis
    by (simp only: getline_def if_False drop.simps)
qed

lemma getline_delim:
  assumes "d \<notin> set a"
  shows "getline d (a @ d # rest) = Some (a, rest)"
proof -
  have a: "\<forall>c \<in> set a. c \<noteq> d" using assms by blast
  have "takeWhile (\<lambda>c. c \<noteq> d) (a @ d # rest) = a"
    using a by simp
  moreover have "dropWhile (\<lambda>c. c \<noteq> d) (a @ d # rest) = d # rest"
    using a by simp
  ultimately show ?thesis
    by (simp add: getline_def)
qed

lemma getline_shorter:
  assumes "getline d s = Some (t, s')"
  shows "length s' < length s"
proof -
  from assms have "s \<noteq> []" and "s' = drop 1 (dropWhile (\<lambda>c. c \<noteq> d) s)"
    by (auto simp: getline_def split: if_splits)
  moreover have "length (dropWhile (\<lambda>c. c \<noteq> d) s) \<le> length s"
    by (rule length_dropWhile_le)
  ultimately show ?thesis
    by (cases s) auto
qed

lemma tokenize_acc: "tokenize ss tokens = tokens @ tokenize ss []"
proof (induction "length ss" arbitrary: ss tokens rule: less_induct)
  case less
  show ?case
  proof (cases "getline CHR '','' ss")
    case None
    then show ?thesis
      by (simp add: tokenize.simps [of ss])
  next
    case (Some p)
    obtain token ss' where p: "p = (token, ss')" by (cases p)
    have sh: "length ss' < length ss"
      using Some p getline_shorter by simp
    have "tokenize ss' (tokens @ [token]) = (tokens @ [token]) @ tokenize ss' []"
      using less [OF sh] .
    moreover have "tokenize ss' [token] = [token] @ tokenize ss' []"
      using less [OF sh] .
    ultimately show ?thesis
      using Some p by (simp add: tokenize.simps [of ss])
  qed
qed

lemma split_spec_not_Nil: "split_spec d s \<noteq> []"
  by (induction s) (auto split: list.splits)

lemma split_spec_no_delim: "d \<notin> set s \<Longrightarrow> split_spec d s = [s]"
  by (induction s) auto

lemma split_spec_delim:
  "d \<notin> set a \<Longrightarrow> split_spec d (a @ d # rest) = a # split_spec d rest"
  by (induction a) auto

lemma getline_cases:
  assumes "getline d s = Some (t, r)"
  shows "(s \<noteq> [] \<and> d \<notin> set s \<and> t = s \<and> r = []) \<or> (d \<notin> set t \<and> s = t @ d # r)"
proof -
  let ?P = "\<lambda>c. c \<noteq> d"
  from assms have ne: "s \<noteq> []" and t: "t = takeWhile ?P s" and r: "r = drop 1 (dropWhile ?P s)"
    by (auto simp: getline_def split: if_splits)
  show ?thesis
  proof (cases "dropWhile ?P s")
    case Nil
    then have "\<forall>c \<in> set s. c \<noteq> d" by simp
    then have "d \<notin> set s" and "takeWhile ?P s = s" by auto
    with ne t r Nil show ?thesis by simp
  next
    case (Cons x xs)
    have "dropWhile ?P s \<noteq> []" using Cons by simp
    then have "\<not> ?P (hd (dropWhile ?P s))"
      by (rule hd_dropWhile)
    with Cons have x: "x = d" by simp
    have "s = takeWhile ?P s @ dropWhile ?P s" by simp
    with Cons x t r have "s = t @ d # r" by simp
    moreover have "d \<notin> set t"
      using t by (auto dest: set_takeWhileD)
    ultimately show ?thesis by simp
  qed
qed

text \<open>Dropping the empty piece after a last delimiter.\<close>

lemma drop_last_empty_step:
  assumes "getline d s = Some (t, r)"
  shows "(if last (split_spec d s) = [] then butlast (split_spec d s) else split_spec d s) =
         t # (if last (split_spec d r) = [] then butlast (split_spec d r) else split_spec d r)"
  using getline_cases [OF assms]
  by (auto simp: split_spec_no_delim split_spec_delim split_spec_not_Nil)

lemma tokenize_eq_fields_spec: "tokenize line [] = fields_spec line"
proof (induction "length line" arbitrary: line rule: less_induct)
  case less
  show ?case
  proof (cases "getline CHR '','' line")
    case None
    then have "line = []" by (simp add: getline_def split: if_splits)
    then show ?thesis
      by (simp add: tokenize.simps [of "[]"] getline_Nil fields_spec_def)
  next
    case (Some p)
    obtain token ss' where p: "p = (token, ss')" by (cases p)
    have g: "getline CHR '','' line = Some (token, ss')" using Some p by simp
    have "tokenize line [] = tokenize ss' [token]"
      using g by (simp add: tokenize.simps [of line])
    also have "\<dots> = token # tokenize ss' []"
      using tokenize_acc [of ss' "[token]"] by simp
    also have "tokenize ss' [] = fields_spec ss'"
      using less getline_shorter [OF g] by simp
    also have "token # fields_spec ss' = fields_spec line"
      using drop_last_empty_step [OF g] by (simp add: fields_spec_def)
    finally show ?thesis .
  qed
qed



lemma prereq_loop_eq:
  "prereq_loop tokens i prereqs = prereqs @ map toUpperTrim (drop i tokens)"
proof (induction tokens i prereqs rule: prereq_loop.induct)
  case (1 tokens i prereqs)
  show ?case
  proof (cases "i < length tokens")
    case True
    then have "drop i tokens = tokens ! i # drop (Suc i) tokens"
      by (simp add: Cons_nth_drop_Suc)
    with 1 True show ?thesis
      by (simp add: prereq_loop.simps [of tokens i])
  next
    case False
    then show ?thesis
      by (simp add: prereq_loop.simps [of tokens i])
  qed
qed

lemma toUpperTrim_fun_eq: "toUpperTrim = normalize_spec"
  by (rule ext) (rule toUpperTrim_eq_normalize_spec)

lemma loadCourses_body_spec:
  "loadCourses_body line (bst, cout) =
     (if well_formed_spec line then (insert_course bst (course_of_line_spec line), cout)
      else if malformed_spec line then (bst, cout @ warning_spec line)
      else (bst, cout))"
  by (auto simp: loadCourses_body_def well_formed_spec_def malformed_spec_def
      course_of_line_spec_def warning_spec_def tokenize_eq_fields_spec Let_def
      prereq_loop_eq toUpperTrim_fun_eq)

lemma loadCourses_loop_foldl:
  "loadCourses_loop src st = foldl (\<lambda>st line. loadCourses_body line st) st (read_lines src)"
proof (induction src st rule: loadCourses_loop.induct)
  case (1 src st)
  show ?case
  proof (cases "getline CHR 0x0A src")
    case None
    then show ?thesis
      by (simp add: loadCourses_loop.simps [of src] read_lines.simps [of src])
  next
    case (Some p)
    obtain line src' where p: "p = (line, src')" by (cases p)
    with 1 Some show ?thesis
      by (simp add: loadCourses_loop.simps [of src] read_lines.simps [of src])
  qed
qed

lemma foldl_loadCourses_body:
  "foldl (\<lambda>st line. loadCourses_body line st) (bst, cout) ls =
     (foldl insert_course bst (map course_of_line_spec (filter well_formed_spec ls)),
      cout @ concat (map warning_spec (filter malformed_spec ls)))"
proof (induction ls arbitrary: bst cout)
  case Nil
  show ?case by simp
next
  case (Cons l ls)
  have "\<not> (well_formed_spec l \<and> malformed_spec l)"
    by (auto simp: well_formed_spec_def malformed_spec_def)
  then show ?case
    by (auto simp: loadCourses_body_spec Cons.IH)
qed

lemma loadCourses_open:
  "fs filename = Some src \<Longrightarrow>
   loadCourses fs filename (bst, cout) =
     (foldl insert_course bst
        (map course_of_line_spec (filter well_formed_spec (read_lines src))),
      cout @ ''Loading courses from '' @ filename @ ''...'' @ endl @
        concat (map warning_spec (filter malformed_spec (read_lines src))) @
        ''Courses loaded into data structure.'' @ endl)"
  by (simp add: loadCourses_def loadCourses_loop_foldl foldl_loadCourses_body)


lemma foldl_printCourseBasic:
  "foldl (\<lambda>out c. printCourseBasic c out) cout cs =
     cout @ concat (map (\<lambda>c. courseNumber c @ '', '' @ courseName c @ endl) cs)"
  by (induction cs arbitrary: cout) (simp_all add: printCourseBasic_def)

section \<open>Properties of printCourseInfo and of loaded catalogs\<close>

lemma join_comma_space_Cons:
  "join_comma_space (x # xs) = x @ (if xs = [] then [] else '', '' @ join_comma_space xs)"
  by (cases xs) simp_all

lemma print_prereqs_step:
  "print_prereqs bst (p # ps) firstPrinted cout =
     print_prereqs bst ps True
       (cout @ (if firstPrinted then '', '' else []) @ render_prereq_spec bst p)"
  by (simp add: render_prereq_spec_def split: option.splits)

lemma print_prereqs_eq:
  "print_prereqs bst ps firstPrinted cout =
     cout @ (if ps = [] then []
             else (if firstPrinted then '', '' else []) @
                  join_comma_space (map (render_prereq_spec bst) ps))"
proof (induction ps arbitrary: firstPrinted cout)
  case Nil
  show ?case by simp
next
  case (Cons p ps)
  show ?case
    unfolding print_prereqs_step Cons.IH list.map join_comma_space_Cons
    by simp
qed

lemma printCourseInfo_eq:
  "printCourseInfo bst query cout =
     cout @ ''What course do you want to know about? '' @ render_detail_spec bst query"
  by (simp add: printCourseInfo_def render_detail_spec_def Let_def print_prereqs_eq
      toUpperTrim_eq_normalize_spec split: option.splits)

lemma search_key:
  "search t k = Some c \<Longrightarrow> courseNumber c = k \<and> c \<in> set (enumerate_courses t)"
  by (simp add: search_def searchNode_key)

section \<open>The claims\<close>

text \<open>
  C1 (first insertion wins). For every sequence \<open>cs\<close> of insertions into the empty
  catalog and every id \<open>k\<close>, \<open>search\<close> returns the first course of \<open>cs\<close>, in
  insertion order, whose id is \<open>k\<close>. In particular, when a course \<open>c\<close> is inserted
  whose id is already in the catalog, the lookup of that id finds a course, and the
  same one after the insertion as before: never the duplicate \<open>c\<close>.
\<close>

theorem first_insertion_wins:
  "search (catalog_of cs) k = find (\<lambda>x. courseNumber x = k) cs \<and>
   (courseNumber c \<in> courseNumber ` set cs \<longrightarrow>
      search (catalog_of cs) (courseNumber c) \<noteq> None \<and>
      search (insert_course (catalog_of cs) c) (courseNumber c) =
        search (catalog_of cs) (courseNumber c))"
proof -
  have 1: "search (catalog_of cs) k = find (\<lambda>x. courseNumber x = k) cs" for k
    by (rule search_catalog_of)
  have 2: "search (insert_course t c) k =
      (case search t k of
         Some x \<Rightarrow> Some x
       | None \<Rightarrow> if courseNumber c = k then Some c else None)" for t k
    by (simp add: search_def insert_course_def searchNode_addNode)
  have "find (\<lambda>x. courseNumber x = courseNumber c) cs \<noteq> None"
    if "courseNumber c \<in> courseNumber ` set cs"
    using that by (auto simp: find_None_iff)
  then show ?thesis
    by (auto simp: 1 2 split: option.splits)
qed

text \<open>Inserting a second course with id \<open>A\<close>: the lookup still returns the first.\<close>

theorem first_insertion_wins_witness:
  "courseNumber \<lparr>courseNumber = ''A'', courseName = ''second'', prerequisites = []\<rparr>
     \<in> courseNumber ` set [\<lparr>courseNumber = ''A'', courseName = ''first'', prerequisites = []\<rparr>] \<and>
   search (insert_course
       (catalog_of [\<lparr>courseNumber = ''A'', courseName = ''first'', prerequisites = []\<rparr>])
       \<lparr>courseNumber = ''A'', courseName = ''second'', prerequisites = []\<rparr>) ''A'' =
     Some \<lparr>courseNumber = ''A'', courseName = ''first'', prerequisites = []\<rparr>"
  using first_insertion_wins
    [of "[\<lparr>courseNumber = ''A'', courseName = ''first'', prerequisites = []\<rparr>]" "''A''"
        "\<lparr>courseNumber = ''A'', courseName = ''second'', prerequisites = []\<rparr>"]
  by simp

text \<open>
  C2, as stated, fails: after two insertions with the same id the enumeration holds
  that id twice, so the ids are not strictly ascending.
\<close>

theorem enumeration_not_strict_counterexample:
  "\<not> sorted_wrt (<) (map courseNumber (enumerate_courses (catalog_of
      [\<lparr>courseNumber = ''A'', courseName = ''first'', prerequisites = []\<rparr>,
       \<lparr>courseNumber = ''A'', courseName = ''second'', prerequisites = []\<rparr>])))"
  by (simp add: catalog_of_def insert_course_def CourseBST_new_def)

text \<open>
  C2 (enumeration ordering), amended. For every catalog produced by a sequence \<open>cs\<close>
  of insertions, the ids in enumeration order are ascending (non-decreasing) under
  byte-wise lexicographic comparison, and strictly ascending when no two inserted
  courses share an id. \<open>printAll\<close> prints exactly the enumerated courses, in that
  order, one \<open>printCourseBasic\<close> line each.
\<close>

theorem enumeration_ascending:
  "sorted (map courseNumber (enumerate_courses (catalog_of cs))) \<and>
   (distinct (map courseNumber cs) \<longrightarrow>
      sorted_wrt (<) (map courseNumber (enumerate_courses (catalog_of cs)))) \<and>
   printAll (catalog_of cs) cout =
     foldl (\<lambda>out c. printCourseBasic c out) cout (enumerate_courses (catalog_of cs))"
  by (simp add: sorted_enumerate_catalog_of distinct_ids_enumerate_catalog_of
      strict_sorted_iff printAll_def inOrder_enumerate)

text \<open>Two courses with distinct ids, inserted in descending order.\<close>

theorem enumeration_ascending_witness:
  "distinct (map courseNumber
      [\<lparr>courseNumber = ''MATH201'', courseName = ''Discrete Mathematics'', prerequisites = []\<rparr>,
       \<lparr>courseNumber = ''CSCI100'', courseName = ''Introduction'', prerequisites = []\<rparr>]) \<and>
   sorted_wrt (<) (map courseNumber (enumerate_courses (catalog_of
      [\<lparr>courseNumber = ''MATH201'', courseName = ''Discrete Mathematics'', prerequisites = []\<rparr>,
       \<lparr>courseNumber = ''CSCI100'', courseName = ''Introduction'', prerequisites = []\<rparr>])))"
  using enumeration_ascending
    [of "[\<lparr>courseNumber = ''MATH201'', courseName = ''Discrete Mathematics'', prerequisites = []\<rparr>,
          \<lparr>courseNumber = ''CSCI100'', courseName = ''Introduction'', prerequisites = []\<rparr>]"]
  by simp

text \<open>
  C3, as stated, fails: with two courses of id \<open>A\<close>, the enumeration yields the
  second one, and the lookup of its id returns the first, whose title differs.
\<close>

theorem lookup_title_counterexample:
  "\<lparr>courseNumber = ''A'', courseName = ''second'', prerequisites = []\<rparr>
     \<in> set (enumerate_courses (catalog_of
          [\<lparr>courseNumber = ''A'', courseName = ''first'', prerequisites = []\<rparr>,
           \<lparr>courseNumber = ''A'', courseName = ''second'', prerequisites = []\<rparr>])) \<and>
   search (catalog_of
          [\<lparr>courseNumber = ''A'', courseName = ''first'', prerequisites = []\<rparr>,
           \<lparr>courseNumber = ''A'', courseName = ''second'', prerequisites = []\<rparr>]) ''A'' =
     Some \<lparr>courseNumber = ''A'', courseName = ''first'', prerequisites = []\<rparr> \<and>
   ''first'' \<noteq> ''second''"
  by (simp add: catalog_of_def insert_course_def CourseBST_new_def search_def)

text \<open>
  C3 (lookup agrees with enumeration), amended. For every catalog and every course
  \<open>X\<close> yielded by enumeration, the lookup of \<open>X\<close>'s id returns a record with the
  same id: the first-inserted course with that id. Its title is \<open>X\<close>'s title
  whenever all inserted courses with that id carry \<open>X\<close>'s title (in particular when
  \<open>X\<close> is the only one).
\<close>

theorem lookup_agrees_with_enumeration:
  assumes "X \<in> set (enumerate_courses (catalog_of cs))"
  shows "\<exists>Y. search (catalog_of cs) (courseNumber X) = Some Y \<and>
             find (\<lambda>c. courseNumber c = courseNumber X) cs = Some Y \<and>
             courseNumber Y = courseNumber X \<and>
             ((\<forall>Z \<in> set cs. courseNumber Z = courseNumber X \<longrightarrow> courseName Z = courseName X)
                \<longrightarrow> courseName Y = courseName X)"
proof -
  from assms have X: "X \<in> set cs"
    by (simp only: set_enumerate_catalog_of)
  then have "find (\<lambda>c. courseNumber c = courseNumber X) cs \<noteq> None"
    by (auto simp: find_None_iff)
  then obtain Y where Y: "find (\<lambda>c. courseNumber c = courseNumber X) cs = Some Y"
    by blast
  then have "courseNumber Y = courseNumber X" and "Y \<in> set cs"
    by (auto simp: find_Some_iff)
  with Y show ?thesis
    by (auto simp: search_catalog_of)
qed

text \<open>A catalog of two courses with different ids, looked up at the second.\<close>

theorem lookup_agrees_with_enumeration_witness:
  "\<lparr>courseNumber = ''B'', courseName = ''other'', prerequisites = []\<rparr>
     \<in> set (enumerate_courses (catalog_of
          [\<lparr>courseNumber = ''A'', courseName = ''first'', prerequisites = []\<rparr>,
           \<lparr>courseNumber = ''B'', courseName = ''other'', prerequisites = []\<rparr>])) \<and>
   search (catalog_of
          [\<lparr>courseNumber = ''A'', courseName = ''first'', prerequisites = []\<rparr>,
           \<lparr>courseNumber = ''B'', courseName = ''other'', prerequisites = []\<rparr>]) ''B'' =
     Some \<lparr>courseNumber = ''B'', courseName = ''other'', prerequisites = []\<rparr>"
proof -
  let ?a = "\<lparr>courseNumber = ''A'', courseName = ''first'', prerequisites = []\<rparr>"
  let ?b = "\<lparr>courseNumber = ''B'', courseName = ''other'', prerequisites = []\<rparr>"
  have m: "?b \<in> set (enumerate_courses (catalog_of [?a, ?b]))"
    by (simp add: set_enumerate_catalog_of)
  from lookup_agrees_with_enumeration [OF m]
  show ?thesis using m by simp
qed




text \<open>
  C5 (detail rendering). After the prompt, which is written before the query is read,
  \<open>printCourseInfo\<close> writes exactly the detail block of the specification: it looks
  the normalized query up; when absent, the not-found notice; when present, the line
  "id, title", then "Prerequisites: None" for an empty prerequisite list, and
  otherwise "Prerequisites: " followed by the entries, in source order, joined by
  comma and space, an entry being "P.id: P.title" for a prerequisite found in the
  catalog and "P: None Required" for a dangling one.
\<close>

theorem detail_rendering:
  "printCourseInfo bst query cout =
     cout @ ''What course do you want to know about? '' @ render_detail_spec bst query"
  by (rule printCourseInfo_eq)

text \<open>
  A course with a resolved and a dangling prerequisite, a course with none, and a
  query that is not in the catalog.
\<close>

theorem detail_rendering_witness:
  "printCourseInfo
     (Node \<lparr>courseNumber = ''CSCI301'', courseName = ''Advanced Programming'',
             prerequisites = [''CSCI101'', ''CSCI999'']\<rparr>
       (Node \<lparr>courseNumber = ''CSCI101'', courseName = ''Programming in C++'',
               prerequisites = []\<rparr> nullptr nullptr)
       nullptr)
     '' csci301 '' [] =
   ''What course do you want to know about? CSCI301, Advanced Programming'' @ [CHR 0x0A] @
   ''Prerequisites: CSCI101: Programming in C++, CSCI999: None Required'' @ [CHR 0x0A] \<and>
   printCourseInfo
     (Node \<lparr>courseNumber = ''CSCI301'', courseName = ''Advanced Programming'',
             prerequisites = [''CSCI101'', ''CSCI999'']\<rparr>
       (Node \<lparr>courseNumber = ''CSCI101'', courseName = ''Programming in C++'',
               prerequisites = []\<rparr> nullptr nullptr)
       nullptr)
     ''csci101'' [] =
   ''What course do you want to know about? CSCI101, Programming in C++'' @ [CHR 0x0A] @
   ''Prerequisites: None'' @ [CHR 0x0A] \<and>
   printCourseInfo
     (Node \<lparr>courseNumber = ''CSCI301'', courseName = ''Advanced Programming'',
             prerequisites = [''CSCI101'', ''CSCI999'']\<rparr>
       (Node \<lparr>courseNumber = ''CSCI101'', courseName = ''Programming in C++'',
               prerequisites = []\<rparr> nullptr nullptr)
       nullptr)
     ''ZZZ000'' [] =
   ''What course do you want to know about? Course not found.'' @ [CHR 0x0A]"
  using detail_rendering
    [of "Node \<lparr>courseNumber = ''CSCI301'', courseName = ''Advanced Programming'',
             prerequisites = [''CSCI101'', ''CSCI999'']\<rparr>
       (Node \<lparr>courseNumber = ''CSCI101'', courseName = ''Programming in C++'',
               prerequisites = []\<rparr> nullptr nullptr)
       nullptr" "'' csci301 ''" "[]"]
    detail_rendering
    [of "Node \<lparr>courseNumber = ''CSCI301'', courseName = ''Advanced Programming'',
             prerequisites = [''CSCI101'', ''CSCI999'']\<rparr>
       (Node \<lparr>courseNumber = ''CSCI101'', courseName = ''Programming in C++'',
               prerequisites = []\<rparr> nullptr nullptr)
       nullptr" "''csci101''" "[]"]
    detail_rendering
    [of "Node \<lparr>courseNumber = ''CSCI301'', courseName = ''Advanced Programming'',
             prerequisites = [''CSCI101'', ''CSCI999'']\<rparr>
       (Node \<lparr>courseNumber = ''CSCI101'', courseName = ''Programming in C++'',
               prerequisites = []\<rparr> nullptr nullptr)
       nullptr" "''ZZZ000''" "[]"]
  by code_simp

text \<open>
  C6 (normalization). For every string, \<open>toUpperTrim\<close> returns what the specification
  describes: the input without its leading and trailing characters among space, tab,
  carriage return and newline, every remaining byte in 0x61..0x7A mapped to the
  corresponding byte in 0x41..0x5A and every other byte unchanged. It is empty
  whenever the input consists only of those whitespace characters.
\<close>

theorem normalize_refines_spec:
  "toUpperTrim s = normalize_spec s \<and>
   ((\<forall>c \<in> set s. is_space_spec c) \<longrightarrow> toUpperTrim s = [])"
proof -
  have "toUpperTrim s = []" if "\<forall>c \<in> set s. is_space_spec c"
  proof -
    from that have "set s \<subseteq> set whitespace"
      by (auto simp: in_whitespace)
    then show ?thesis by (rule toUpperTrim_whitespace_only)
  qed
  then show ?thesis
    by (simp add: toUpperTrim_eq_normalize_spec)
qed

text \<open>A string with surrounding and inner whitespace, and a whitespace-only string.\<close>

theorem normalize_refines_spec_witness:
  "toUpperTrim ([CHR 0x09] @ '' csci101 x'' @ [CHR 0x0D, CHR 0x0A]) = ''CSCI101 X'' \<and>
   normalize_spec ([CHR 0x09] @ '' csci101 x'' @ [CHR 0x0D, CHR 0x0A]) = ''CSCI101 X'' \<and>
   list_all is_space_spec [CHR '' '', CHR 0x09, CHR 0x0D, CHR 0x0A] \<and>
   toUpperTrim [CHR '' '', CHR 0x09, CHR 0x0D, CHR 0x0A] = []"
proof -
  let ?s = "[CHR 0x09] @ '' csci101 x'' @ [CHR 0x0D, CHR 0x0A]"
  let ?w = "[CHR '' '', CHR 0x09, CHR 0x0D, CHR 0x0A]"
  have n: "normalize_spec ?s = ''CSCI101 X''"
    by code_simp
  have "toUpperTrim ?s = normalize_spec ?s"
    using normalize_refines_spec [of ?s] by (rule conjunct1)
  then have t: "toUpperTrim ?s = ''CSCI101 X''"
    using n by (rule trans)
  have w: "\<forall>c \<in> set ?w. is_space_spec c"
    by (simp add: is_space_spec_def)
  have l: "list_all is_space_spec ?w"
    by (simp add: is_space_spec_def)
  have e: "toUpperTrim ?w = []"
    using normalize_refines_spec [of ?w] w by blast
  from t n l e show ?thesis
    by (intro conjI)
qed

text \<open>
  C7, as stated, fails: the line \<open>,Title\<close> has the two fields \<open>""\<close> and \<open>Title\<close>,
  so the loader stores a course whose id is empty.
\<close>

theorem loaded_id_empty_counterexample:
  "enumerate_courses (fst (loadCourses [''in.csv'' \<mapsto> '',Title''] ''in.csv'' (CourseBST_new, []))) =
     [\<lparr>courseNumber = [], courseName = ''Title'', prerequisites = []\<rparr>]"
  by code_simp

text \<open>
  C7 (stored ids are normalized), amended. When the ids of a catalog are fixed points
  of normalization (as in the empty catalog), then after \<open>loadCourses\<close>, from any
  source, every id stored in the catalog is a fixed point of normalization: uppercase,
  with no leading or trailing whitespace. It may be empty.
\<close>

theorem loaded_ids_normalized:
  assumes "\<forall>x \<in> set (enumerate_courses bst). toUpperTrim (courseNumber x) = courseNumber x"
    and "c \<in> set (enumerate_courses (fst (loadCourses fs filename (bst, cout))))"
  shows "toUpperTrim (courseNumber c) = courseNumber c \<and> is_normalized_spec (courseNumber c)"
proof (cases "fs filename")
  case None
  then have "fst (loadCourses fs filename (bst, cout)) = bst"
    by (simp add: loadCourses_def)
  with assms show ?thesis
    by (simp add: toUpperTrim_fixed_point_iff)
next
  case (Some src)
  let ?cs = "map course_of_line_spec (filter well_formed_spec (read_lines src))"
  have "fst (loadCourses fs filename (bst, cout)) = foldl addNode bst ?cs"
    using Some by (simp add: loadCourses_open foldl_insert_course)
  then have "mset (enumerate_courses (fst (loadCourses fs filename (bst, cout)))) =
             mset (enumerate_courses bst) + mset ?cs"
    by (simp only: mset_enumerate_foldl)
  then have "set (enumerate_courses (fst (loadCourses fs filename (bst, cout)))) =
             set (enumerate_courses bst) \<union> set ?cs"
    by (metis set_mset_mset set_mset_union)
  with assms(2) consider "c \<in> set (enumerate_courses bst)" | "c \<in> set ?cs"
    by blast
  then show ?thesis
  proof cases
    case 1
    with assms(1) show ?thesis
      by (simp add: toUpperTrim_fixed_point_iff)
  next
    case 2
    then obtain l where "c = course_of_line_spec l" by auto
    then have "is_normalized_spec (courseNumber c)"
      by (simp add: course_of_line_spec_def is_normalized_normalize_spec)
    then show ?thesis
      by (simp add: toUpperTrim_fixed_point_iff)
  qed
qed

text \<open>Loading one line into the empty catalog.\<close>

theorem loaded_ids_normalized_witness:
  "\<lparr>courseNumber = ''CSCI100'', courseName = ''Intro'', prerequisites = []\<rparr>
     \<in> set (enumerate_courses (fst (loadCourses
          [''in.csv'' \<mapsto> '' csci100 ,Intro''] ''in.csv'' (CourseBST_new, [])))) \<and>
   toUpperTrim ''CSCI100'' = ''CSCI100''"
proof -
  let ?c = "\<lparr>courseNumber = ''CSCI100'', courseName = ''Intro'', prerequisites = []\<rparr>"
  let ?fs = "[''in.csv'' \<mapsto> '' csci100 ,Intro'']"
  have h: "\<forall>x \<in> set (enumerate_courses CourseBST_new).
             toUpperTrim (courseNumber x) = courseNumber x"
    by (simp add: CourseBST_new_def)
  have m: "?c \<in> set (enumerate_courses (fst (loadCourses ?fs ''in.csv'' (CourseBST_new, []))))"
    by code_simp
  from loaded_ids_normalized [OF h m] m show ?thesis
    by simp
qed

text \<open>
  C8 (source unavailable). For every catalog and every path that cannot be opened,
  \<open>loadCourses\<close> writes the error line and returns the catalog exactly as it was.
\<close>

theorem load_unopened:
  assumes "fs filename = None"
  shows "loadCourses fs filename (bst, cout) =
           (bst, cout @ ''ERROR: Could not open file: '' @ filename @ endl)"
  using assms by (simp add: loadCourses_def)

text \<open>No file can be opened; the catalog holds one course.\<close>

theorem load_unopened_witness:
  "Map.empty ''missing.csv'' = (None :: string option) \<and>
   loadCourses Map.empty ''missing.csv''
     (Node \<lparr>courseNumber = ''CSCI100'', courseName = ''Intro'', prerequisites = []\<rparr>
        nullptr nullptr, []) =
     (Node \<lparr>courseNumber = ''CSCI100'', courseName = ''Intro'', prerequisites = []\<rparr>
        nullptr nullptr,
      ''ERROR: Could not open file: missing.csv'' @ [CHR 0x0A])"
  using load_unopened
    [of Map.empty "''missing.csv''"
        "Node \<lparr>courseNumber = ''CSCI100'', courseName = ''Intro'', prerequisites = []\<rparr>
           nullptr nullptr" "[]"]
  by (simp add: endl_def)

text \<open>
  C9 (enumeration is a stable sort of the insertions). For every sequence \<open>cs\<close> of
  courses inserted into the empty catalog, \<open>printAll\<close> (the traversal \<open>inOrder\<close> from
  the root) writes exactly one line "id, title" for each course of the stable sort of
  \<open>cs\<close> by id, in that order, and nothing else. The courses it visits are exactly the
  multiset of \<open>cs\<close>, none dropped and none repeated; their ids are in non-decreasing
  order; and for every id the courses with that id come in their insertion order.
\<close>

theorem enumeration_stable_sorted:
  "printAll (catalog_of cs) cout =
     cout @ concat (map (\<lambda>c. courseNumber c @ '', '' @ courseName c @ endl)
                      (sort_key courseNumber cs)) \<and>
   inOrder (catalog_of cs) cout =
     foldl (\<lambda>out c. printCourseBasic c out) cout (enumerate_courses (catalog_of cs)) \<and>
   enumerate_courses (catalog_of cs) = sort_key courseNumber cs \<and>
   mset (enumerate_courses (catalog_of cs)) = mset cs \<and>
   sorted (map courseNumber (enumerate_courses (catalog_of cs))) \<and>
   (\<forall>k. filter (\<lambda>c. courseNumber c = k) (enumerate_courses (catalog_of cs)) =
        filter (\<lambda>c. courseNumber c = k) cs)"
proof -
  have "filter (\<lambda>x. courseNumber k = courseNumber x) (enumerate_courses (catalog_of cs)) =
        filter (\<lambda>x. courseNumber k = courseNumber x) cs" for k
    using filter_enumerate_catalog_of [of "courseNumber k" cs]
    by (simp add: eq_commute)
  then have s: "sort_key courseNumber cs = enumerate_courses (catalog_of cs)"
    by (intro properties_for_sort_key)
      (simp_all add: mset_enumerate_catalog_of sorted_enumerate_catalog_of)
  have "printAll (catalog_of cs) cout =
        cout @ concat (map (\<lambda>c. courseNumber c @ '', '' @ courseName c @ endl)
                         (enumerate_courses (catalog_of cs)))"
    by (simp only: printAll_def inOrder_enumerate foldl_printCourseBasic)
  then show ?thesis
    by (simp add: s inOrder_enumerate mset_enumerate_catalog_of
        sorted_enumerate_catalog_of filter_enumerate_catalog_of)
qed

text \<open>
  Three insertions, two of them with the id \<open>A\<close>: both are printed, the earlier one
  first.
\<close>

theorem enumeration_stable_sorted_witness:
  "printAll (catalog_of
      [\<lparr>courseNumber = ''B'', courseName = ''other'', prerequisites = []\<rparr>,
       \<lparr>courseNumber = ''A'', courseName = ''first'', prerequisites = []\<rparr>,
       \<lparr>courseNumber = ''A'', courseName = ''second'', prerequisites = [''B'']\<rparr>]) [] =
     ''A, first'' @ [CHR 0x0A] @ ''A, second'' @ [CHR 0x0A] @ ''B, other'' @ [CHR 0x0A] \<and>
   enumerate_courses (catalog_of
      [\<lparr>courseNumber = ''B'', courseName = ''other'', prerequisites = []\<rparr>,
       \<lparr>courseNumber = ''A'', courseName = ''first'', prerequisites = []\<rparr>,
       \<lparr>courseNumber = ''A'', courseName = ''second'', prerequisites = [''B'']\<rparr>]) =
     [\<lparr>courseNumber = ''A'', courseName = ''first'', prerequisites = []\<rparr>,
      \<lparr>courseNumber = ''A'', courseName = ''second'', prerequisites = [''B'']\<rparr>,
      \<lparr>courseNumber = ''B'', courseName = ''other'', prerequisites = []\<rparr>]"
proof -
  let ?cs = "[\<lparr>courseNumber = ''B'', courseName = ''other'', prerequisites = []\<rparr>,
              \<lparr>courseNumber = ''A'', courseName = ''first'', prerequisites = []\<rparr>,
              \<lparr>courseNumber = ''A'', courseName = ''second'', prerequisites = [''B'']\<rparr>]"
  have s: "sort_key courseNumber ?cs =
      [\<lparr>courseNumber = ''A'', courseName = ''first'', prerequisites = []\<rparr>,
       \<lparr>courseNumber = ''A'', courseName = ''second'', prerequisites = [''B'']\<rparr>,
       \<lparr>courseNumber = ''B'', courseName = ''other'', prerequisites = []\<rparr>]"
    by code_simp
  note t = enumeration_stable_sorted [of ?cs "[]"]
  have p: "printAll (catalog_of ?cs) [] =
      [] @ concat (map (\<lambda>c. courseNumber c @ '', '' @ courseName c @ endl)
                     (sort_key courseNumber ?cs))"
    using t by (rule conjunct1)
  have e: "enumerate_courses (catalog_of ?cs) = sort_key courseNumber ?cs"
    using t by (rule conjunct1 [OF conjunct2 [OF conjunct2]])
  show ?thesis
    unfolding p e s by (simp add: endl_def)
qed

text \<open>
  C10 (lookup matches byte for byte). For every tree and every query \<open>q\<close>, a course
  that \<open>search\<close> returns is a course of the tree whose stored id equals \<open>q\<close>. The lookup
  does not normalize: on a catalog whose ids are all normalized, a query that holds a
  lowercase letter, or that starts or ends with whitespace, is absent.
\<close>

theorem lookup_exact_match:
  "(search t q = Some c \<longrightarrow> courseNumber c = q \<and> c \<in> set (enumerate_courses t)) \<and>
   ((\<forall>x \<in> set (enumerate_courses t). toUpperTrim (courseNumber x) = courseNumber x) \<and>
    ((\<exists>ch \<in> set q. is_lower_spec ch) \<or>
     (q \<noteq> [] \<and> (is_space_spec (hd q) \<or> is_space_spec (last q))))
    \<longrightarrow> search t q = None)"
proof -
  have 1: "courseNumber c = q \<and> c \<in> set (enumerate_courses t)" if "search t q = Some c" for c
    using that by (rule search_key)
  have "search t q = None"
    if n: "\<forall>x \<in> set (enumerate_courses t). toUpperTrim (courseNumber x) = courseNumber x"
      and q: "(\<exists>ch \<in> set q. is_lower_spec ch) \<or>
              (q \<noteq> [] \<and> (is_space_spec (hd q) \<or> is_space_spec (last q)))"
  proof (rule ccontr)
    assume "search t q \<noteq> None"
    then obtain y where y: "search t q = Some y" by blast
    from 1 [OF y] n have "toUpperTrim q = q" by auto
    then have "is_normalized_spec q"
      by (simp only: toUpperTrim_fixed_point_iff)
    with q show False
      by (auto simp: is_normalized_spec_def)
  qed
  with 1 show ?thesis by blast
qed

text \<open>A lowercase query and a query with a trailing space, on a one-course catalog.\<close>

theorem lookup_exact_match_witness:
  "search (Node \<lparr>courseNumber = ''CSCI100'', courseName = ''Intro'', prerequisites = []\<rparr>
             nullptr nullptr) ''csci100'' = None \<and>
   search (Node \<lparr>courseNumber = ''CSCI100'', courseName = ''Intro'', prerequisites = []\<rparr>
             nullptr nullptr) ''CSCI100 '' = None"
proof -
  let ?t = "Node \<lparr>courseNumber = ''CSCI100'', courseName = ''Intro'', prerequisites = []\<rparr>
              nullptr nullptr"
  have n: "\<forall>x \<in> set (enumerate_courses ?t). toUpperTrim (courseNumber x) = courseNumber x"
    by code_simp
  have l: "\<exists>ch \<in> set ''csci100''. is_lower_spec ch"
    by (simp add: is_lower_spec_def)
  have w: "''CSCI100 '' \<noteq> [] \<and>
           (is_space_spec (hd ''CSCI100 '') \<or> is_space_spec (last ''CSCI100 ''))"
    by (simp add: is_space_spec_def)
  have "search ?t ''csci100'' = None"
    using lookup_exact_match [of ?t "''csci100''"] n l by blast
  moreover have "search ?t ''CSCI100 '' = None"
    using lookup_exact_match [of ?t "''CSCI100 ''"] n w by blast
  ultimately show ?thesis by (rule conjI)
qed

end
